theory Spec2Isabelle
  imports Main "HOL-Library.Word"
begin

section \<open>Machine types and error codes\<close>

unbundle bit_operations_syntax

type_synonym u8 = "8 word"
type_synonym u64 = "64 word"

text \<open>The errno values of the kernel headers the ioctl code returns (negated).\<close>

definition EPERM :: int where "EPERM = 1"
definition ENOENT :: int where "ENOENT = 2"
definition ENOMEM :: int where "ENOMEM = 12"
definition EFAULT :: int where "EFAULT = 14"
definition EINVAL :: int where "EINVAL = 22"
definition ENOTTY :: int where "ENOTTY = 25"
definition EOVERFLOW :: int where "EOVERFLOW = 75"

definition INT_MAX :: nat where "INT_MAX = 2147483647"

section \<open>Keys and the metadata index\<close>

text \<open>\<^verbatim>\<open>struct scoutfs_key\<close>: inode, type and offset, as \<^verbatim>\<open>scoutfs_set_key\<close> fills them.\<close>

record scoutfs_key =
  inode :: u64
  type :: u8
  offset :: u64

text \<open>Modelled from the spec: \<^verbatim>\<open>scoutfs_set_key\<close> of key.h, which is not among the
  sources. The spec's \<^verbatim>\<open>encode(primary, type, secondary)\<close>.\<close>

definition scoutfs_set_key :: "u64 \<Rightarrow> u8 \<Rightarrow> u64 \<Rightarrow> scoutfs_key" where
  "scoutfs_set_key ino ty off = \<lparr>inode = ino, type = ty, offset = off\<rparr>"

text \<open>Modelled from the spec: \<^verbatim>\<open>scoutfs_key_inode\<close> and \<^verbatim>\<open>scoutfs_key_offset\<close> of key.h,
  the decoders of the primary and the secondary field.\<close>

definition scoutfs_key_inode :: "scoutfs_key \<Rightarrow> u64" where
  "scoutfs_key_inode k = inode k"

definition scoutfs_key_offset :: "scoutfs_key \<Rightarrow> u64" where
  "scoutfs_key_offset k = offset k"

text \<open>Modelled from the spec: the order of keys, which key.h implements and the store
  sorts by: "Ordering is lexicographic over the triple".\<close>

definition key_le :: "scoutfs_key \<Rightarrow> scoutfs_key \<Rightarrow> bool" where
  "key_le a b =
     (inode a < inode b \<or>
      (inode a = inode b \<and> (type a < type b \<or> (type a = type b \<and> offset a \<le> offset b))))"

text \<open>Modelled from the spec: \<^verbatim>\<open>scoutfs_inc_key\<close> of key.h, the spec's \<^verbatim>\<open>successor\<close>:
  the smallest key strictly greater. The offset is incremented and a wrap carries into
  the type, whose wrap carries into the inode.\<close>

definition scoutfs_inc_key :: "scoutfs_key \<Rightarrow> scoutfs_key" where
  "scoutfs_inc_key k =
     (if offset k + 1 \<noteq> 0 then k\<lparr>offset := offset k + 1\<rparr>
      else if type k + 1 \<noteq> 0 then k\<lparr>type := type k + 1, offset := 0\<rparr>
      else \<lparr>inode = inode k + 1, type = 0, offset = 0\<rparr>)"

text \<open>The stable metadata tree of the super block, \<^verbatim>\<open>SCOUTFS_STABLE_META(sb)\<close>, as the
  snapshot a call reads: the items, each a key with the sequence number stored with it.\<close>

type_synonym btree_item = "scoutfs_key \<times> u64"
type_synonym btree = "btree_item list"

fun least_item :: "btree_item list \<Rightarrow> btree_item option" where
  "least_item [] = None"
| "least_item (x # xs) =
     (case least_item xs of
        None \<Rightarrow> Some x
      | Some y \<Rightarrow> if key_le (fst x) (fst y) then Some x else Some y)"

text \<open>Modelled from the spec: \<^verbatim>\<open>scoutfs_btree_since\<close> of btree.c, which is not among the
  sources. The spec's \<^verbatim>\<open>range_scan_since(start_key, end_key, seq_floor)\<close>: "the next
  record in [cursor, upper] whose sequence stamp is >= seq", or range exhausted. The
  result is the return value, the found key and the found sequence; when nothing is
  found the return value is \<^verbatim>\<open>-ENOENT\<close> and the key is left as it was.\<close>

definition scoutfs_btree_since ::
  "btree \<Rightarrow> scoutfs_key \<Rightarrow> scoutfs_key \<Rightarrow> u64 \<Rightarrow> int \<times> scoutfs_key \<times> u64" where
  "scoutfs_btree_since meta first lastk sq =
     (case least_item (filter (\<lambda>(k, s). key_le first k \<and> key_le k lastk \<and> sq \<le> s) meta) of
        None \<Rightarrow> (- ENOENT, first, 0)
      | Some (k, s) \<Rightarrow> (0, k, s))"

text \<open>Modelled from the spec: \<^verbatim>\<open>scoutfs_btree_next\<close> of btree.c, the spec's
  \<^verbatim>\<open>range_scan(start_key, end_key)\<close>: the next key in the range, whatever its sequence.\<close>

definition scoutfs_btree_next ::
  "btree \<Rightarrow> scoutfs_key \<Rightarrow> scoutfs_key \<Rightarrow> int \<times> scoutfs_key" where
  "scoutfs_btree_next meta first lastk =
     (case least_item (filter (\<lambda>(k, s). key_le first k \<and> key_le k lastk) meta) of
        None \<Rightarrow> (- ENOENT, first)
      | Some (k, s) \<Rightarrow> (0, k))"

section \<open>The calling process\<close>

text \<open>What a call sees of the calling process: whether it holds \<^verbatim>\<open>CAP_DAC_READ_SEARCH\<close>,
  whether the argument struct can be read, whether a copy of \<open>n\<close> bytes to the
  destination buffer at byte offset \<open>off\<close> faults, the bytes at the string pointer
  (\<open>None\<close> when reading them faults) and whether \<^verbatim>\<open>kmalloc\<close> succeeds. A copy that faults
  counts as writing nothing. A copy of no bytes touches no memory and returns 0 whatever
  the pointer, and \<^verbatim>\<open>kmalloc\<close> of no bytes returns a pointer that is not \<^verbatim>\<open>NULL\<close>: neither
  fails, and the functions below say so where a length can be 0.\<close>

record caller =
  capable :: bool
  args_fault :: bool
  write_fault :: "nat \<Rightarrow> nat \<Rightarrow> bool"
  user_str :: "u8 list option"
  kmalloc_fails :: bool

text \<open>What a call leaves behind: its return value and the records (or bytes) it copied to
  the destination buffer, in the order of their addresses.\<close>

record 'a outcome =
  ret :: int
  written :: "'a list"

section \<open>Inodes changed since a sequence number\<close>

text \<open>\<^verbatim>\<open>struct scoutfs_ioctl_inodes_since\<close> and \<^verbatim>\<open>struct scoutfs_ioctl_ino_seq\<close> of
  ioctl.h. The result record is two 64-bit fields, so \<^verbatim>\<open>sizeof(iseq)\<close> is 16.\<close>

record scoutfs_ioctl_inodes_since =
  first_ino :: u64
  last_ino :: u64
  seq :: u64
  buf_ptr :: u64
  buf_len :: nat

type_synonym scoutfs_ioctl_ino_seq = "u64 \<times> u64"

definition sizeof_iseq :: nat where "sizeof_iseq = 16"

text \<open>The loop of \<^verbatim>\<open>scoutfs_ioc_inodes_since\<close>. The state is the cursor \<open>key\<close>, the
  bytes written and the records written; the result is the value of \<^verbatim>\<open>ret\<close> when the loop
  is left, with the bytes and the records. The byte counts stay below
  \<^verbatim>\<open>INT_MAX + 16\<close>, since the length was checked before, so no C addition here wraps; the
  inode number is 64 bits wide and \<^verbatim>\<open>iseq.ino + 1\<close> does wrap.\<close>

function inodes_since_loop ::
  "caller \<Rightarrow> btree \<Rightarrow> scoutfs_key \<Rightarrow> u64 \<Rightarrow> nat \<Rightarrow> scoutfs_key \<Rightarrow> nat \<Rightarrow>
   scoutfs_ioctl_ino_seq list \<Rightarrow> int \<times> nat \<times> scoutfs_ioctl_ino_seq list" where
  "inodes_since_loop u meta lastk sq blen key bytes out =
     (case scoutfs_btree_since meta key lastk sq of
        (r, found, fseq) \<Rightarrow>
          if r < 0 then ((if r = - ENOENT then 0 else r), bytes, out)
          else if write_fault u bytes sizeof_iseq then (- EFAULT, bytes, out)
          else if bytes + sizeof_iseq + sizeof_iseq > blen
            then (0, bytes + sizeof_iseq, out @ [(scoutfs_key_inode found, fseq)])
          else inodes_since_loop u meta lastk sq blen
                 (found\<lparr>inode := scoutfs_key_inode found + 1\<rparr>)
                 (bytes + sizeof_iseq) (out @ [(scoutfs_key_inode found, fseq)]))"
  by pat_completeness auto
termination
  by (relation "measure (\<lambda>(u, meta, lastk, sq, blen, key, bytes, out). blen - bytes)")
     (auto simp: sizeof_iseq_def)

declare inodes_since_loop.simps [simp del]

definition scoutfs_ioc_inodes_since ::
  "caller \<Rightarrow> btree \<Rightarrow> scoutfs_ioctl_inodes_since \<Rightarrow> u8 \<Rightarrow> scoutfs_ioctl_ino_seq outcome" where
  "scoutfs_ioc_inodes_since u meta args ty =
     (if args_fault u then \<lparr>ret = - EFAULT, written = []\<rparr>
      else if buf_len args < sizeof_iseq \<or> buf_len args > INT_MAX
        then \<lparr>ret = - EINVAL, written = []\<rparr>
      else
        (case inodes_since_loop u meta (scoutfs_set_key (last_ino args) ty 0) (seq args)
                (buf_len args) (scoutfs_set_key (first_ino args) ty 0) 0 [] of
           (r, bytes, out) \<Rightarrow>
             \<lparr>ret = (if bytes \<noteq> 0 then int bytes else r), written = out\<rparr>))"

section \<open>All the paths to an inode\<close>

text \<open>\<^verbatim>\<open>struct scoutfs_path_component\<close> of dir.h: the length and the name array. The
  list head is the position in the list that holds the component.\<close>

record scoutfs_path_component =
  len :: nat
  name :: "u8 list"

text \<open>The directory's back references, read through \<^verbatim>\<open>scoutfs_dir_next_path\<close>: for every
  inode the paths to it, each a list of components from the root down, in the order the
  iteration yields them.\<close>

type_synonym dir_index = "u64 \<Rightarrow> scoutfs_path_component list list"

text \<open>Modelled from the spec: \<^verbatim>\<open>scoutfs_dir_next_path\<close> of dir.c, which dir.h only
  declares. The spec's \<^verbatim>\<open>next_path(target_inode, cursor)\<close>: "each call returns either one
  complete ordered list of path components or a not-found/exhausted signal". The result
  is the return value (positive with a path, 0 when there are no more), the components
  linked on the list and the advanced counter.\<close>

definition scoutfs_dir_next_path ::
  "dir_index \<Rightarrow> u64 \<Rightarrow> nat \<Rightarrow> int \<times> scoutfs_path_component list \<times> nat" where
  "scoutfs_dir_next_path d ino ctr =
     (if ctr < length (d ino) then (1, d ino ! ctr, Suc ctr) else (0, [], ctr))"

text \<open>The conversions C makes in \<^verbatim>\<open>copy_to_ptr\<close>: the \<^verbatim>\<open>int\<close> space is compared as an
  \<^verbatim>\<open>unsigned long\<close>, and the \<^verbatim>\<open>unsigned long\<close> difference is returned as an \<^verbatim>\<open>int\<close>.\<close>

definition ulong_of_int :: "int \<Rightarrow> int" where
  "ulong_of_int x = x mod 2 ^ 64"

definition int_of_ulong :: "int \<Rightarrow> int" where
  "int_of_ulong x = (x + 2 ^ 31) mod 2 ^ 32 - 2 ^ 31"

text \<open>\<^verbatim>\<open>copy_to_ptr\<close>. The destination pointer \<^verbatim>\<open>*to\<close> is the bytes written before it; the
  result is the return value and the bytes written after the call.\<close>

definition copy_to_ptr ::
  "caller \<Rightarrow> u8 list \<Rightarrow> u8 list \<Rightarrow> nat \<Rightarrow> int \<Rightarrow> int \<times> u8 list" where
  "copy_to_ptr u to from n space =
     (if int n > ulong_of_int space then (- EOVERFLOW, to)
      else if n \<noteq> 0 \<and> write_fault u (length to) n then (- EFAULT, to)
      else (int_of_ulong (ulong_of_int space - int n), to @ take n from))"

definition slash :: "u8 list" where "slash = [47]"
definition null :: "u8 list" where "null = [0]"

text \<open>The \<^verbatim>\<open>list_for_each_entry_safe\<close> loop of \<^verbatim>\<open>scoutfs_ioc_inode_paths\<close> over the
  components on the list. The state is the remaining space \<open>blen\<close> (the variable
  \<^verbatim>\<open>len\<close>), the bytes written, and the number of allocated components \<open>held\<close>; the
  result adds the components still on the list.\<close>

fun copy_components ::
  "caller \<Rightarrow> scoutfs_path_component list \<Rightarrow> int \<Rightarrow> u8 list \<Rightarrow> int \<Rightarrow>
   int \<times> u8 list \<times> scoutfs_path_component list \<times> int" where
  "copy_components u [] blen ptr held = (blen, ptr, [], held)"
| "copy_components u (c # rest) blen ptr held =
     (case copy_to_ptr u ptr (name c) (len c) blen of
        (blen1, ptr1) \<Rightarrow>
          if blen1 < 0 then (blen1, ptr1, c # rest, held)
          else if rest \<noteq> [] then
            (case copy_to_ptr u ptr1 slash 1 blen1 of
               (blen2, ptr2) \<Rightarrow>
                 if blen2 < 0 then (blen2, ptr2, rest, held - 1)
                 else copy_components u rest blen2 ptr2 (held - 1))
          else copy_components u rest blen1 ptr1 (held - 1))"

text \<open>The \<^verbatim>\<open>while\<close> loop of \<^verbatim>\<open>scoutfs_ioc_inode_paths\<close> with the terminator written after
  it, up to the label \<^verbatim>\<open>out\<close>. The result is \<^verbatim>\<open>ret\<close>, \<^verbatim>\<open>len\<close>, the bytes written, the
  components still on the list and the number of allocated components.\<close>

function inode_paths_loop ::
  "caller \<Rightarrow> dir_index \<Rightarrow> u64 \<Rightarrow> nat \<Rightarrow> int \<Rightarrow> u8 list \<Rightarrow> int \<Rightarrow>
   int \<times> int \<times> u8 list \<times> scoutfs_path_component list \<times> int" where
  "inode_paths_loop u d ino ctr blen ptr held =
     (case scoutfs_dir_next_path d ino ctr of
        (r, lst, ctr') \<Rightarrow>
          if r > 0 then
            (case copy_components u lst blen ptr (held + int (length lst)) of
               (blen1, ptr1, lst1, held1) \<Rightarrow>
                 if blen1 < 0 then (0, blen1, ptr1, lst1, held1)
                 else
                   (case copy_to_ptr u ptr1 null 1 blen1 of
                      (blen2, ptr2) \<Rightarrow>
                        if blen2 < 0 then (0, blen2, ptr2, lst1, held1)
                        else inode_paths_loop u d ino ctr' blen2 ptr2 held1))
          else
            (case copy_to_ptr u ptr null 1 blen of
               (blen', ptr') \<Rightarrow> (r, blen', ptr', lst, held)))"
  by pat_completeness auto
termination
  by (relation "measure (\<lambda>(u, d, ino, ctr, blen, ptr, held). length (d ino) - ctr)")
     (auto simp: scoutfs_dir_next_path_def split: if_splits)

declare inode_paths_loop.simps [simp del]

text \<open>Modelled from the spec: \<^verbatim>\<open>scoutfs_dir_free_path\<close> of dir.c, the spec's
  \<^verbatim>\<open>release_path(list)\<close>: every component still on the list is freed. The result is the
  number of allocated components after it.\<close>

definition scoutfs_dir_free_path :: "scoutfs_path_component list \<Rightarrow> int \<Rightarrow> int" where
  "scoutfs_dir_free_path lst held = held - int (length lst)"

text \<open>\<^verbatim>\<open>struct scoutfs_ioctl_inode_paths\<close> of ioctl.h; the fields carry a prefix, since
  the other argument structs have fields of the same names.\<close>

record scoutfs_ioctl_inode_paths =
  ip_ino :: u64
  ip_buf_ptr :: u64
  ip_buf_len :: nat

record paths_outcome = "u8 outcome" +
  held_after :: int

definition scoutfs_ioc_inode_paths ::
  "caller \<Rightarrow> dir_index \<Rightarrow> scoutfs_ioctl_inode_paths \<Rightarrow> paths_outcome" where
  "scoutfs_ioc_inode_paths u d args =
     (if \<not> capable u then \<lparr>ret = - EPERM, written = [], held_after = 0\<rparr>
      else if args_fault u then \<lparr>ret = - EFAULT, written = [], held_after = 0\<rparr>
      else if ip_buf_len args > INT_MAX then \<lparr>ret = - EINVAL, written = [], held_after = 0\<rparr>
      else
        (case inode_paths_loop u d (ip_ino args) 0 (int (ip_buf_len args)) [] 0 of
           (r, blen, ptr, lst, held) \<Rightarrow>
             \<lparr>ret = (if r = 0 \<and> blen < 0 then blen else r), written = ptr,
              held_after = scoutfs_dir_free_path lst held\<rparr>))"

section \<open>Inodes that may hold an xattr name or value\<close>

text \<open>The constants of format.h and the hash of name.h that \<^verbatim>\<open>scoutfs_ioc_find_xattr\<close>
  uses; none of them is among the sources, so they are parameters.\<close>

record format =
  SCOUTFS_MAX_XATTR_LEN :: nat
  SCOUTFS_XATTR_NAME_HASH_MASK :: u64
  SCOUTFS_XATTR_NAME_HASH_KEY :: u8
  SCOUTFS_XATTR_VAL_HASH_KEY :: u8
  scoutfs_name_hash :: "u8 list \<Rightarrow> nat \<Rightarrow> u64"

text \<open>\<^verbatim>\<open>struct scoutfs_ioctl_find_xattr\<close> of ioctl.h, its fields prefixed.\<close>

record scoutfs_ioctl_find_xattr =
  fx_first_ino :: u64
  fx_last_ino :: u64
  fx_str_ptr :: u64
  fx_str_len :: nat
  fx_ino_count :: nat
  fx_ino_ptr :: u64

record xattr_outcome = "u64 outcome" +
  lookups :: nat

text \<open>The loop of \<^verbatim>\<open>scoutfs_ioc_find_xattr\<close>. The state is \<^verbatim>\<open>ret\<close>, the cursor, the inodes
  copied (each 8 bytes) and the number of calls of \<^verbatim>\<open>scoutfs_btree_next\<close> so far.\<close>

function find_xattr_loop ::
  "caller \<Rightarrow> btree \<Rightarrow> scoutfs_key \<Rightarrow> nat \<Rightarrow> int \<Rightarrow> scoutfs_key \<Rightarrow> nat \<Rightarrow> u64 list \<Rightarrow> nat \<Rightarrow>
   int \<times> nat \<times> u64 list \<times> nat" where
  "find_xattr_loop u meta lastk count r0 key copied out n =
     (if copied < count then
        (case scoutfs_btree_next meta key lastk of
           (r, found) \<Rightarrow>
             if r < 0 then ((if r = - ENOENT then 0 else r), copied, out, Suc n)
             else if write_fault u (8 * copied) 8 then (- EFAULT, copied, out, Suc n)
             else find_xattr_loop u meta lastk count r (scoutfs_inc_key found) (Suc copied)
                    (out @ [scoutfs_key_offset found]) (Suc n))
      else (r0, copied, out, n))"
  by pat_completeness auto
termination
  by (relation "measure (\<lambda>(u, meta, lastk, count, r0, key, copied, out, n). count - copied)")
     auto

declare find_xattr_loop.simps [simp del]

definition scoutfs_ioc_find_xattr ::
  "format \<Rightarrow> caller \<Rightarrow> btree \<Rightarrow> scoutfs_ioctl_find_xattr \<Rightarrow> bool \<Rightarrow> xattr_outcome" where
  "scoutfs_ioc_find_xattr fmt u meta args find_name =
     (if args_fault u then \<lparr>ret = - EFAULT, written = [], lookups = 0\<rparr>
      else if fx_str_len args > SCOUTFS_MAX_XATTR_LEN fmt \<or> fx_ino_count args > INT_MAX
        then \<lparr>ret = - EINVAL, written = [], lookups = 0\<rparr>
      else if fx_first_ino args > fx_last_ino args
        then \<lparr>ret = - EINVAL, written = [], lookups = 0\<rparr>
      else if fx_ino_count args = 0 then \<lparr>ret = 0, written = [], lookups = 0\<rparr>
      else if fx_str_len args \<noteq> 0 \<and> kmalloc_fails u
        then \<lparr>ret = - ENOMEM, written = [], lookups = 0\<rparr>
      else
        (case (if fx_str_len args = 0 then Some [] else user_str u) of
           None \<Rightarrow> \<lparr>ret = - EFAULT, written = [], lookups = 0\<rparr>
         | Some str \<Rightarrow>
             let h0 = scoutfs_name_hash fmt (take (fx_str_len args) str) (fx_str_len args);
                 h = (if find_name then h0 AND NOT (SCOUTFS_XATTR_NAME_HASH_MASK fmt) else h0);
                 ty = (if find_name then SCOUTFS_XATTR_NAME_HASH_KEY fmt
                       else SCOUTFS_XATTR_VAL_HASH_KEY fmt)
             in
               (case find_xattr_loop u meta (scoutfs_set_key h ty (fx_last_ino args))
                       (fx_ino_count args) 0 (scoutfs_set_key h ty (fx_first_ino args)) 0 [] 0 of
                  (r, copied, out, n) \<Rightarrow>
                    \<lparr>ret = (if copied \<noteq> 0 then int copied else r), written = out,
                     lookups = n\<rparr>)))"

section \<open>The path output as the spec words it\<close>

text \<open>The name of a component: the first \<^verbatim>\<open>len\<close> bytes of its array.\<close>

definition comp_name :: "scoutfs_path_component \<Rightarrow> u8 list" where
  "comp_name c = take (len c) (name c)"

text \<open>One path: "component names joined by a single separator with no separator after
  the last component".\<close>

fun path_string :: "scoutfs_path_component list \<Rightarrow> u8 list" where
  "path_string [] = []"
| "path_string [c] = comp_name c"
| "path_string (c # c' # cs) = comp_name c @ slash @ path_string (c' # cs)"

text \<open>All paths: each "followed by one terminator", stored consecutively, "and after the
  last path one additional empty terminator".\<close>

definition paths_output :: "scoutfs_path_component list list \<Rightarrow> u8 list" where
  "paths_output ps = concat (map (\<lambda>p. path_string p @ null) ps) @ null"

text \<open>Every component's length is within its name array.\<close>

definition names_fit :: "scoutfs_path_component list list \<Rightarrow> bool" where
  "names_fit ps = list_all (list_all (\<lambda>c. len c \<le> length (name c))) ps"

text \<open>No copy to the destination buffer faults.\<close>

definition no_fault :: "caller \<Rightarrow> bool" where
  "no_fault u = (\<forall>off n. \<not> write_fault u off n)"

section \<open>Callers and stores of the scenarios\<close>

text \<open>A caller with the capability whose memory never faults.\<close>

definition quiet :: caller where
  "quiet = \<lparr>capable = True, args_fault = False, write_fault = (\<lambda>off n. False),
     user_str = Some [], kmalloc_fails = False\<rparr>"

text \<open>A caller whose destination buffer faults at byte offset \<open>k\<close> and nowhere else.\<close>

definition faulting_at :: "nat \<Rightarrow> caller" where
  "faulting_at k = \<lparr>capable = True, args_fault = False, write_fault = (\<lambda>off n. off = k),
     user_str = Some [], kmalloc_fails = False\<rparr>"

text \<open>The store of the spec's scenario: inodes 12, 15 and 18 with sequences 7, 3 and 9,
  under keys of type \<open>ty\<close>.\<close>

definition scenario_meta :: "u8 \<Rightarrow> btree" where
  "scenario_meta ty =
     [(scoutfs_set_key 12 ty 0, 7), (scoutfs_set_key 15 ty 0, 3), (scoutfs_set_key 18 ty 0, 9)]"

definition scenario_args :: "nat \<Rightarrow> scoutfs_ioctl_inodes_since" where
  "scenario_args n = \<lparr>first_ino = 10, last_ino = 20, seq = 5, buf_ptr = 0, buf_len = n\<rparr>"

text \<open>The scenario's query resumed from another first inode.\<close>

definition resumed_args :: "u64 \<Rightarrow> nat \<Rightarrow> scoutfs_ioctl_inodes_since" where
  "resumed_args first n = \<lparr>first_ino = first, last_ino = 20, seq = 5, buf_ptr = 0, buf_len = n\<rparr>"

text \<open>A store of two items of type \<open>ty\<close> at offsets other than 0, as the items of file
  data are: inode 12 at offset 5 with sequence 7, inode 13 at offset 2 with sequence 9.\<close>

definition extent_meta :: "u8 \<Rightarrow> btree" where
  "extent_meta ty = [(scoutfs_set_key 12 ty 5, 7), (scoutfs_set_key 13 ty 2, 9)]"

text \<open>A store with an item of the greatest inode number, and a query up to it.\<close>

definition wrap_meta :: btree where
  "wrap_meta = [(scoutfs_set_key 5 1 0, 1), (scoutfs_set_key (- 1) 1 0, 1)]"

definition wrap_args :: scoutfs_ioctl_inodes_since where
  "wrap_args = \<lparr>first_ino = 0, last_ino = - 1, seq = 0, buf_ptr = 0, buf_len = 48\<rparr>"

text \<open>Sample values for the constants of format.h and a sample hash, for the scenarios
  of the xattr search; with them, items of the value hash 0 for inodes 12 and 15.\<close>

definition scenario_format :: format where
  "scenario_format = \<lparr>SCOUTFS_MAX_XATTR_LEN = 255, SCOUTFS_XATTR_NAME_HASH_MASK = 7,
     SCOUTFS_XATTR_NAME_HASH_KEY = 3, SCOUTFS_XATTR_VAL_HASH_KEY = 4,
     scoutfs_name_hash = (\<lambda>str n. of_nat n)\<rparr>"

definition xattr_meta :: btree where
  "xattr_meta = [(scoutfs_set_key 0 4 12, 1), (scoutfs_set_key 0 4 15, 1)]"

definition xattr_args :: "u64 \<Rightarrow> nat \<Rightarrow> nat \<Rightarrow> scoutfs_ioctl_find_xattr" where
  "xattr_args first slen n = \<lparr>fx_first_ino = first, fx_last_ino = 20, fx_str_ptr = 0,
     fx_str_len = slen, fx_ino_count = n, fx_ino_ptr = 0\<rparr>"

text \<open>The spec's scenario of two hard links: inode 7 is reached by a/b/c and by a/d/c,
  and no other inode has a path. Each name is one byte in an array of three.\<close>

definition one_byte :: "u8 \<Rightarrow> scoutfs_path_component" where
  "one_byte x = \<lparr>len = 1, name = [x, 0, 0]\<rparr>"

definition two_links :: dir_index where
  "two_links = (\<lambda>i. if i = 7
     then [[one_byte 97, one_byte 98, one_byte 99], [one_byte 97, one_byte 100, one_byte 99]]
     else [])"

definition paths_args :: "u64 \<Rightarrow> nat \<Rightarrow> scoutfs_ioctl_inode_paths" where
  "paths_args i n = \<lparr>ip_ino = i, ip_buf_ptr = 0, ip_buf_len = n\<rparr>"

section \<open>Properties of the index lookups\<close>

lemma least_item_mem: "least_item xs = Some y \<Longrightarrow> y \<in> set xs"
  by (induction xs arbitrary: y) (auto split: option.splits if_splits)

lemma since_cases:
  "scoutfs_btree_since meta key lastk sq = (r, found, fs) \<Longrightarrow>
     (r = - ENOENT \<and> found = key) \<or>
     (r = 0 \<and> (found, fs) \<in> set meta \<and> key_le key found \<and> key_le found lastk \<and> sq \<le> fs)"
  unfolding scoutfs_btree_since_def
  by (auto split: option.splits dest!: least_item_mem)

lemma key_le_inode: "key_le a b \<Longrightarrow> inode a \<le> inode b"
  by (auto simp: key_le_def)

lemma word_inc_gt: "(x::u64) \<le> y \<Longrightarrow> y \<noteq> - 1 \<Longrightarrow> x < x + 1"
proof -
  assume a: "x \<le> y" "y \<noteq> - 1"
  then have "x \<noteq> - 1" by (auto simp: word_order.extremum_unique)
  then have "\<not> x + 1 \<le> x" by (simp add: inc_less_eq_self_iff_eq)
  then show ?thesis by simp
qed

section \<open>Properties of the change scanner\<close>

text \<open>One round of the loop, once the lookup's result is known.\<close>

lemma loop_unfold:
  assumes "scoutfs_btree_since meta key lastk sq = (r1, found, fs)"
  shows "inodes_since_loop u meta lastk sq blen key bytes out =
     (if r1 < 0 then ((if r1 = - ENOENT then 0 else r1), bytes, out)
      else if write_fault u bytes sizeof_iseq then (- EFAULT, bytes, out)
      else if bytes + sizeof_iseq + sizeof_iseq > blen
        then (0, bytes + sizeof_iseq, out @ [(inode found, fs)])
      else inodes_since_loop u meta lastk sq blen (found\<lparr>inode := inode found + 1\<rparr>)
             (bytes + sizeof_iseq) (out @ [(inode found, fs)]))"
  by (subst inodes_since_loop.simps) (simp add: assms scoutfs_key_inode_def)

text \<open>The loop only appends; it counts 16 bytes for each record; it stays within the
  buffer; every record it appends is an item of the store at or above the sequence floor;
  and when the range ends below the greatest inode number, or no item of the store has
  that inode number, the inode numbers it appends increase.\<close>

lemma loop_inv:
  "inodes_since_loop u meta lastk sq blen key bytes out = (r, b, out') \<Longrightarrow>
   \<exists>new. out' = out @ new \<and> b = bytes + sizeof_iseq * length new \<and> r \<le> 0 \<and>
     (bytes + sizeof_iseq \<le> blen \<longrightarrow> b \<le> blen) \<and>
     (\<forall>e\<in>set new. \<exists>k. (k, snd e) \<in> set meta \<and> inode k = fst e \<and> sq \<le> snd e \<and>
          fst e \<le> inode lastk) \<and>
     (inode lastk \<noteq> - 1 \<or> (\<forall>i\<in>set meta. inode (fst i) \<noteq> - 1) \<longrightarrow>
        sorted_wrt (<) (map fst new) \<and> (\<forall>e\<in>set new. inode key \<le> fst e))"
proof (induction u meta lastk sq blen key bytes out arbitrary: r b out'
    rule: inodes_since_loop.induct)
  case (1 u meta lastk sq blen key bytes out)
  obtain r1 found fs where S: "scoutfs_btree_since meta key lastk sq = (r1, found, fs)"
    by (metis prod_cases3)
  note U = loop_unfold [OF S, of u blen bytes out]
  from since_cases [OF S] consider
    (none) "r1 = - ENOENT" |
    (some) "r1 = 0" "(found, fs) \<in> set meta" "key_le key found" "key_le found lastk" "sq \<le> fs"
    by blast
  then show ?case
  proof cases
    case none
    with "1.prems" U show ?thesis by (simp add: ENOENT_def)
  next
    case some
    have rng: "inode key \<le> inode found" "inode found \<le> inode lastk"
      using some key_le_inode by blast+
    show ?thesis
    proof (cases "write_fault u bytes sizeof_iseq")
      case True
      with "1.prems" U some show ?thesis by (simp add: EFAULT_def)
    next
      case nf: False
      show ?thesis
      proof (cases "bytes + sizeof_iseq + sizeof_iseq > blen")
        case True
        with "1.prems" U some nf
        have "out' = out @ [(inode found, fs)]" "b = bytes + sizeof_iseq" "r = 0"
          by simp_all
        then show ?thesis using some rng by (intro exI[of _ "[(inode found, fs)]"]) auto
      next
        case False
        with "1.prems" U some nf
        have R: "inodes_since_loop u meta lastk sq blen (found\<lparr>inode := inode found + 1\<rparr>)
             (bytes + sizeof_iseq) (out @ [(inode found, fs)]) = (r, b, out')" by simp
        have "\<not> r1 < 0" using some by simp
        from "1.IH" [OF S [symmetric] refl this nf False, unfolded scoutfs_key_inode_def, OF R]
        obtain new where N: "out' = (out @ [(inode found, fs)]) @ new"
          "b = bytes + sizeof_iseq + sizeof_iseq * length new" "r \<le> 0"
          "(bytes + sizeof_iseq + sizeof_iseq \<le> blen \<longrightarrow> b \<le> blen)"
          "\<forall>e\<in>set new. \<exists>k. (k, snd e) \<in> set meta \<and> inode k = fst e \<and> sq \<le> snd e \<and>
              fst e \<le> inode lastk"
          "inode lastk \<noteq> - 1 \<or> (\<forall>i\<in>set meta. inode (fst i) \<noteq> - 1) \<longrightarrow>
             sorted_wrt (<) (map fst new) \<and> (\<forall>e\<in>set new. inode found + 1 \<le> fst e)"
          by auto
        have step: "inode lastk \<noteq> - 1 \<or> (\<forall>i\<in>set meta. inode (fst i) \<noteq> - 1) \<Longrightarrow>
            inode found < inode found + 1"
        proof (erule disjE)
          assume "inode lastk \<noteq> - 1"
          with rng(2) show ?thesis by (rule word_inc_gt)
        next
          assume "\<forall>i\<in>set meta. inode (fst i) \<noteq> - 1"
          with some(2) have "inode found \<noteq> - 1" by force
          with order_refl show ?thesis by (rule word_inc_gt)
        qed
        have low: "inode lastk \<noteq> - 1 \<or> (\<forall>i\<in>set meta. inode (fst i) \<noteq> - 1) \<longrightarrow>
            (\<forall>e\<in>set new. inode found < fst e \<and> inode key \<le> fst e)"
        proof (intro impI ballI)
          fix e assume a: "inode lastk \<noteq> - 1 \<or> (\<forall>i\<in>set meta. inode (fst i) \<noteq> - 1)"
            "e \<in> set new"
          with N(6) have "inode found + 1 \<le> fst e" by blast
          with step [OF a(1)] have "inode found < fst e" by simp
          with rng(1) show "inode found < fst e \<and> inode key \<le> fst e" by simp
        qed
        show ?thesis
          apply (intro exI[of _ "(inode found, fs) # new"])
          using N(1-5) N(6) some rng low False by auto
      qed
    qed
  qed
qed


lemma since_valid:
  assumes "\<not> args_fault u" "sizeof_iseq \<le> buf_len args" "buf_len args \<le> INT_MAX"
    and "inodes_since_loop u meta (scoutfs_set_key (last_ino args) ty 0) (seq args)
           (buf_len args) (scoutfs_set_key (first_ino args) ty 0) 0 [] = (r, b, new)"
  shows "scoutfs_ioc_inodes_since u meta args ty =
           \<lparr>ret = (if b \<noteq> 0 then int b else r), written = new\<rparr>"
  using assms by (simp add: scoutfs_ioc_inodes_since_def)

lemma since_invalid:
  assumes "args_fault u \<or> buf_len args < sizeof_iseq \<or> INT_MAX < buf_len args"
  shows "written (scoutfs_ioc_inodes_since u meta args ty) = []"
    and "ret (scoutfs_ioc_inodes_since u meta args ty) < 0"
  using assms by (auto simp: scoutfs_ioc_inodes_since_def EFAULT_def EINVAL_def)

lemma since_facts:
  fixes u meta args ty
  defines "res \<equiv> scoutfs_ioc_inodes_since u meta args ty"
  shows "sizeof_iseq * length (written res) \<le> buf_len args"
    and "written res \<noteq> [] \<Longrightarrow> ret res = int (sizeof_iseq * length (written res))"
    and "written res = [] \<Longrightarrow> ret res \<le> 0"
    and "\<forall>e\<in>set (written res). \<exists>k. (k, snd e) \<in> set meta \<and> inode k = fst e \<and>
           seq args \<le> snd e \<and> fst e \<le> last_ino args"
    and "last_ino args \<noteq> - 1 \<or> (\<forall>i\<in>set meta. inode (fst i) \<noteq> - 1) \<Longrightarrow>
           sorted_wrt (<) (map fst (written res))"
    and "last_ino args \<noteq> - 1 \<or> (\<forall>i\<in>set meta. inode (fst i) \<noteq> - 1) \<Longrightarrow>
           \<forall>e\<in>set (written res). first_ino args \<le> fst e"
proof -
  let ?ok = "\<not> args_fault u \<and> sizeof_iseq \<le> buf_len args \<and> buf_len args \<le> INT_MAX"
  obtain r b new where L:
    "inodes_since_loop u meta (scoutfs_set_key (last_ino args) ty 0) (seq args)
           (buf_len args) (scoutfs_set_key (first_ino args) ty 0) 0 [] = (r, b, new)"
    by (metis prod_cases3)
  from loop_inv [OF L] have I: "b = sizeof_iseq * length new" "r \<le> 0"
    "sizeof_iseq \<le> buf_len args \<longrightarrow> b \<le> buf_len args"
    "\<forall>e\<in>set new. \<exists>k. (k, snd e) \<in> set meta \<and> inode k = fst e \<and> seq args \<le> snd e \<and>
          fst e \<le> last_ino args"
    "last_ino args \<noteq> - 1 \<or> (\<forall>i\<in>set meta. inode (fst i) \<noteq> - 1) \<longrightarrow>
        sorted_wrt (<) (map fst new) \<and> (\<forall>e\<in>set new. first_ino args \<le> fst e)"
    by (auto simp: scoutfs_set_key_def)
  have R: "?ok \<Longrightarrow> res = \<lparr>ret = (if b \<noteq> 0 then int b else r), written = new\<rparr>"
    unfolding res_def using since_valid [OF _ _ _ L] by blast
  have N: "\<not> ?ok \<Longrightarrow> written res = [] \<and> ret res < 0"
    unfolding res_def using since_invalid [of u args meta ty] by auto
  show "sizeof_iseq * length (written res) \<le> buf_len args"
    using R N I by (cases ?ok) auto
  show "written res \<noteq> [] \<Longrightarrow> ret res = int (sizeof_iseq * length (written res))"
    using R N I by (cases ?ok) (auto simp: sizeof_iseq_def)
  show "written res = [] \<Longrightarrow> ret res \<le> 0"
    using R N I by (cases ?ok) (auto simp: sizeof_iseq_def)
  show "\<forall>e\<in>set (written res). \<exists>k. (k, snd e) \<in> set meta \<and> inode k = fst e \<and>
           seq args \<le> snd e \<and> fst e \<le> last_ino args"
    using R N I(4) by (cases ?ok) auto
  show "last_ino args \<noteq> - 1 \<or> (\<forall>i\<in>set meta. inode (fst i) \<noteq> - 1) \<Longrightarrow>
           sorted_wrt (<) (map fst (written res))"
    using R N I(5) by (cases ?ok) auto
  show "last_ino args \<noteq> - 1 \<or> (\<forall>i\<in>set meta. inode (fst i) \<noteq> - 1) \<Longrightarrow>
           \<forall>e\<in>set (written res). first_ino args \<le> fst e"
    using R N I(5) by (cases ?ok) auto
qed

text \<open>The facts that evaluate a call on a concrete store.\<close>

lemmas since_eval =
  scoutfs_ioc_inodes_since_def sizeof_iseq_def INT_MAX_def scoutfs_set_key_def
  scoutfs_btree_since_def key_le_def scoutfs_key_inode_def ENOENT_def EFAULT_def EINVAL_def
  quiet_def faulting_at_def scenario_meta_def scenario_args_def wrap_meta_def wrap_args_def
  resumed_args_def extent_meta_def

lemma scenario_run:
  assumes "\<not> args_fault u" "\<forall>off n. \<not> write_fault u off n" "32 \<le> n" "n \<le> INT_MAX"
  shows "scoutfs_ioc_inodes_since u (scenario_meta ty) (scenario_args n) ty =
           \<lparr>ret = 32, written = [(12, 7), (18, 9)]\<rparr>"
  using assms
  apply (simp add: since_eval)
  apply (subst inodes_since_loop.simps, simp add: since_eval)
  apply (subst inodes_since_loop.simps, simp add: since_eval)
  apply (subst inodes_since_loop.simps, simp add: since_eval)
  done

lemma quiet_run:
  "scoutfs_ioc_inodes_since quiet (scenario_meta 1) (scenario_args 4096) 1 =
     \<lparr>ret = 32, written = [(12, 7), (18, 9)]\<rparr>"
  by (rule scenario_run) (simp_all add: quiet_def INT_MAX_def)

text \<open>C1. Every record a change-since call writes carries the sequence stored with an item
  of that inode, and this sequence is at least the floor of the query. In the scenario
  (range 10 to 20, floor 5, items of inodes 12, 15, 18 with sequences 7, 3, 9), a call
  whose buffer holds two records or more, and whose copies do not fault, writes exactly
  (12, 7) and (18, 9) and returns their 32 bytes.\<close>

theorem sequence_floor:
  "(\<forall>e\<in>set (written (scoutfs_ioc_inodes_since u meta args ty)).
      \<exists>k. (k, snd e) \<in> set meta \<and> inode k = fst e \<and> seq args \<le> snd e) \<and>
   (\<not> args_fault u \<and> (\<forall>off n. \<not> write_fault u off n) \<and> 32 \<le> n \<and> n \<le> INT_MAX \<longrightarrow>
      scoutfs_ioc_inodes_since u (scenario_meta ty) (scenario_args n) ty =
        \<lparr>ret = 32, written = [(12, 7), (18, 9)]\<rparr>)"
proof (intro conjI impI)
  show "\<forall>e\<in>set (written (scoutfs_ioc_inodes_since u meta args ty)).
      \<exists>k. (k, snd e) \<in> set meta \<and> inode k = fst e \<and> seq args \<le> snd e"
    using since_facts(4) [of u meta args ty] by blast
next
  assume "\<not> args_fault u \<and> (\<forall>off n. \<not> write_fault u off n) \<and> 32 \<le> n \<and> n \<le> INT_MAX"
  then show "scoutfs_ioc_inodes_since u (scenario_meta ty) (scenario_args n) ty =
        \<lparr>ret = 32, written = [(12, 7), (18, 9)]\<rparr>"
    by (intro scenario_run) simp_all
qed

theorem sequence_floor_witness:
  "scoutfs_ioc_inodes_since quiet (scenario_meta 1) (scenario_args 4096) 1 =
     \<lparr>ret = 32, written = [(12, 7), (18, 9)]\<rparr> \<and>
   (\<exists>k. (k, 9) \<in> set (scenario_meta 1) \<and> inode k = 18 \<and> seq (scenario_args 4096) \<le> 9)"
proof -
  note T = sequence_floor [of quiet "scenario_meta 1" "scenario_args 4096" 1 4096]
  from T have R: "scoutfs_ioc_inodes_since quiet (scenario_meta 1) (scenario_args 4096) 1 =
     \<lparr>ret = 32, written = [(12, 7), (18, 9)]\<rparr>"
    by (simp add: quiet_def INT_MAX_def)
  from T have "\<forall>e\<in>set (written (scoutfs_ioc_inodes_since quiet (scenario_meta 1)
      (scenario_args 4096) 1)).
      \<exists>k. (k, snd e) \<in> set (scenario_meta 1) \<and> inode k = fst e \<and> seq (scenario_args 4096) \<le> snd e"
    by (rule conjunct1)
  with R show ?thesis by simp
qed

text \<open>The inode numbers a change-since call writes are strictly increasing whenever the
  increment of line 93 cannot wrap: when the last inode of the range is below the greatest
  64-bit value, or when no item of the store has that inode number.\<close>

lemma ascending_unless_wrap:
  "last_ino args \<noteq> - 1 \<or> (\<forall>i\<in>set meta. inode (fst i) \<noteq> - 1) \<Longrightarrow>
   sorted_wrt (<) (map fst (written (scoutfs_ioc_inodes_since u meta args ty)))"
  by (rule since_facts(5))

text \<open>C2, evaluated on a store with items at inode 5 and at the greatest inode number
  \<open>2^64 - 1\<close>, for the range from 0 to \<open>2^64 - 1\<close> and a buffer of three records. After the
  match at the greatest inode number \<^verbatim>\<open>iseq.ino + 1\<close> wraps to 0, the next lookup starts at
  inode 0 again, and inode 5 is written a second time, after the greater one: the inode
  numbers of the one call are not strictly increasing.\<close>

theorem inode_wrap_reorders:
  "inode (fst (wrap_meta ! 1)) = - 1 \<and> last_ino wrap_args = - 1 \<and>
   scoutfs_ioc_inodes_since quiet wrap_meta wrap_args 1 =
     \<lparr>ret = 48, written = [(5, 1), (- 1, 1), (5, 1)]\<rparr> \<and>
   \<not> sorted_wrt (<) (map fst (written (scoutfs_ioc_inodes_since quiet wrap_meta wrap_args 1)))"
proof -
  have "scoutfs_ioc_inodes_since quiet wrap_meta wrap_args 1 =
      \<lparr>ret = 48, written = [(5, 1), (- 1, 1), (5, 1)]\<rparr>"
    apply (simp add: since_eval)
    apply (subst inodes_since_loop.simps, simp add: since_eval)
    apply (subst inodes_since_loop.simps, simp add: since_eval)
    apply (subst inodes_since_loop.simps, simp add: since_eval)
    done
  then show ?thesis by (simp add: wrap_meta_def wrap_args_def scoutfs_set_key_def)
qed




text \<open>C10. For a change-since call that passes the validation of its buffer length, the
  bytes written (16 for each record) never exceed the buffer length, and a return value
  that is not an error is the number of bytes written: zero, or a positive multiple of
  the record size.\<close>

theorem bytes_within_buffer:
  assumes "\<not> args_fault u" "sizeof_iseq \<le> buf_len args" "buf_len args \<le> INT_MAX"
  shows "sizeof_iseq * length (written (scoutfs_ioc_inodes_since u meta args ty)) \<le> buf_len args \<and>
         (0 \<le> ret (scoutfs_ioc_inodes_since u meta args ty) \<longrightarrow>
            ret (scoutfs_ioc_inodes_since u meta args ty) =
              int (sizeof_iseq * length (written (scoutfs_ioc_inodes_since u meta args ty))))"
proof (intro conjI impI)
  show "sizeof_iseq * length (written (scoutfs_ioc_inodes_since u meta args ty)) \<le> buf_len args"
    by (rule since_facts(1))
next
  assume nn: "0 \<le> ret (scoutfs_ioc_inodes_since u meta args ty)"
  show "ret (scoutfs_ioc_inodes_since u meta args ty) =
      int (sizeof_iseq * length (written (scoutfs_ioc_inodes_since u meta args ty)))"
  proof (cases "written (scoutfs_ioc_inodes_since u meta args ty) = []")
    case True
    from since_facts(3) [OF True] nn True show ?thesis by simp
  next
    case False
    then show ?thesis by (rule since_facts(2))
  qed
qed

theorem bytes_within_buffer_witness:
  "sizeof_iseq * length (written (scoutfs_ioc_inodes_since quiet (scenario_meta 1)
      (scenario_args 4096) 1)) \<le> 4096 \<and>
   ret (scoutfs_ioc_inodes_since quiet (scenario_meta 1) (scenario_args 4096) 1) = 32 \<and>
   length (written (scoutfs_ioc_inodes_since quiet (scenario_meta 1) (scenario_args 4096) 1)) = 2"
  using bytes_within_buffer [of quiet "scenario_args 4096" "scenario_meta 1" 1] quiet_run
  by (simp add: quiet_def scenario_args_def sizeof_iseq_def INT_MAX_def)

section \<open>Properties of the xattr search\<close>

text \<open>The loop only appends, counts one for each inode appended, and stays within the
  requested count.\<close>

lemma xattr_loop_inv:
  "find_xattr_loop u meta lastk count r0 key copied out n = (r, c, out', n') \<Longrightarrow>
   \<exists>new. out' = out @ new \<and> c = copied + length new \<and> (r0 \<le> 0 \<longrightarrow> r \<le> 0) \<and>
     (copied \<le> count \<longrightarrow> c \<le> count)"
proof (induction u meta lastk count r0 key copied out n arbitrary: r c out' n'
    rule: find_xattr_loop.induct)
  case (1 u meta lastk count r0 key copied out n)
  obtain r1 found where S: "scoutfs_btree_next meta key lastk = (r1, found)"
    by (metis surj_pair)
  have r1: "r1 = - ENOENT \<or> r1 = 0"
    using S by (auto simp: scoutfs_btree_next_def split: option.splits)
  show ?case
  proof (cases "copied < count \<and> \<not> r1 < 0 \<and> \<not> write_fault u (8 * copied) 8")
    case True
    with "1.prems" S
    have R: "find_xattr_loop u meta lastk count r1 (scoutfs_inc_key found) (Suc copied)
                    (out @ [scoutfs_key_offset found]) (Suc n) = (r, c, out', n')"
      by (subst (asm) find_xattr_loop.simps) simp
    from True "1.IH" [OF _ S [symmetric] _ _ R] r1
    obtain new where "out' = (out @ [scoutfs_key_offset found]) @ new"
      "c = Suc copied + length new" "r \<le> 0" "c \<le> count" by (auto simp: ENOENT_def)
    then show ?thesis by (intro exI[of _ "scoutfs_key_offset found # new"]) simp
  next
    case False
    with "1.prems" S r1 show ?thesis
      by (subst (asm) find_xattr_loop.simps)
         (auto simp: ENOENT_def EFAULT_def split: if_splits)
  qed
qed

lemma xattr_facts:
  fixes fmt u meta args fn
  defines "res \<equiv> scoutfs_ioc_find_xattr fmt u meta args fn"
  shows "written res \<noteq> [] \<Longrightarrow> ret res = int (length (written res))"
    and "written res = [] \<Longrightarrow> ret res \<le> 0"
    and "length (written res) \<le> fx_ino_count args"
proof -
  have "(written res \<noteq> [] \<longrightarrow> ret res = int (length (written res))) \<and>
        (written res = [] \<longrightarrow> ret res \<le> 0) \<and> length (written res) \<le> fx_ino_count args"
    unfolding res_def scoutfs_ioc_find_xattr_def
    by (auto simp: Let_def EFAULT_def EINVAL_def ENOMEM_def
          split: option.splits prod.splits dest!: xattr_loop_inv)
  then show "written res \<noteq> [] \<Longrightarrow> ret res = int (length (written res))"
    and "written res = [] \<Longrightarrow> ret res \<le> 0"
    and "length (written res) \<le> fx_ino_count args" by blast+
qed

lemmas xattr_eval =
  scoutfs_ioc_find_xattr_def INT_MAX_def scoutfs_set_key_def scoutfs_btree_next_def key_le_def
  scoutfs_key_offset_def scoutfs_inc_key_def ENOENT_def EFAULT_def EINVAL_def
  quiet_def faulting_at_def scenario_format_def xattr_meta_def xattr_args_def

lemma xattr_fault_run:
  "scoutfs_ioc_find_xattr scenario_format (faulting_at 8) xattr_meta (xattr_args 10 0 5) False =
     \<lparr>ret = 1, written = [12], lookups = 2\<rparr>"
  apply (simp add: xattr_eval)
  apply (subst find_xattr_loop.simps, simp add: xattr_eval)
  apply (subst find_xattr_loop.simps, simp add: xattr_eval)
  done

lemma since_fault_run:
  "scoutfs_ioc_inodes_since (faulting_at 16) (scenario_meta 1) (scenario_args 4096) 1 =
     \<lparr>ret = 16, written = [(12, 7)]\<rparr>"
  apply (simp add: since_eval)
  apply (subst inodes_since_loop.simps, simp add: since_eval)
  apply (subst inodes_since_loop.simps, simp add: since_eval)
  done

text \<open>C5, as the code has it. In a change-since call and in a reverse-attribute call,
  for every behaviour of the caller's memory: once a record has been written, the call
  returns the positive count of what it wrote (16 bytes for each change record, one for
  each inode), also when a later write fails; the transfer-failure code is returned only
  when no record has been written.\<close>

theorem partial_count_returned:
  "(written (scoutfs_ioc_inodes_since u meta args ty) \<noteq> [] \<longrightarrow>
      ret (scoutfs_ioc_inodes_since u meta args ty) =
        int (sizeof_iseq * length (written (scoutfs_ioc_inodes_since u meta args ty))) \<and>
      0 < ret (scoutfs_ioc_inodes_since u meta args ty)) \<and>
   (ret (scoutfs_ioc_inodes_since u meta args ty) = - EFAULT \<longrightarrow>
      written (scoutfs_ioc_inodes_since u meta args ty) = []) \<and>
   (written (scoutfs_ioc_find_xattr fmt u meta xargs find_name) \<noteq> [] \<longrightarrow>
      ret (scoutfs_ioc_find_xattr fmt u meta xargs find_name) =
        int (length (written (scoutfs_ioc_find_xattr fmt u meta xargs find_name))) \<and>
      0 < ret (scoutfs_ioc_find_xattr fmt u meta xargs find_name)) \<and>
   (ret (scoutfs_ioc_find_xattr fmt u meta xargs find_name) = - EFAULT \<longrightarrow>
      written (scoutfs_ioc_find_xattr fmt u meta xargs find_name) = [])"
proof -
  let ?s = "scoutfs_ioc_inodes_since u meta args ty"
  let ?x = "scoutfs_ioc_find_xattr fmt u meta xargs find_name"
  have s: "written ?s \<noteq> [] \<Longrightarrow> ret ?s = int (sizeof_iseq * length (written ?s))"
    by (rule since_facts(2))
  have x: "written ?x \<noteq> [] \<Longrightarrow> ret ?x = int (length (written ?x))"
    by (rule xattr_facts(1))
  have sp: "written ?s \<noteq> [] \<Longrightarrow> 0 < ret ?s"
    using s by (simp add: sizeof_iseq_def)
  have xp: "written ?x \<noteq> [] \<Longrightarrow> 0 < ret ?x"
    using x by simp
  have se: "ret ?s = - EFAULT \<Longrightarrow> written ?s = []"
    using sp by (cases "written ?s = []") (simp_all add: EFAULT_def)
  have xe: "ret ?x = - EFAULT \<Longrightarrow> written ?x = []"
    using xp by (cases "written ?x = []") (simp_all add: EFAULT_def)
  show ?thesis using s x sp xp se xe by blast
qed

theorem partial_count_returned_witness:
  "write_fault (faulting_at 16) 16 sizeof_iseq \<and>
   ret (scoutfs_ioc_inodes_since (faulting_at 16) (scenario_meta 1) (scenario_args 4096) 1) = 16 \<and>
   write_fault (faulting_at 8) 8 8 \<and>
   ret (scoutfs_ioc_find_xattr scenario_format (faulting_at 8) xattr_meta (xattr_args 10 0 5) False)
     = 1"
  using partial_count_returned [where u = "faulting_at 16" and meta = "scenario_meta 1"
      and args = "scenario_args 4096" and ty = 1]
    partial_count_returned [where u = "faulting_at 8" and fmt = scenario_format
      and meta = xattr_meta and xargs = "xattr_args 10 0 5" and find_name = False]
    since_fault_run xattr_fault_run
  by (simp add: faulting_at_def sizeof_iseq_def)

text \<open>C5 as stated fails: the second write of a change-since call faults, after one
  record has been written, and the call returns 16, the bytes of that record.\<close>

theorem partial_count_counterexample:
  "write_fault (faulting_at 16) 16 sizeof_iseq \<and>
   scoutfs_ioc_inodes_since (faulting_at 16) (scenario_meta 1) (scenario_args 4096) 1 =
     \<lparr>ret = 16, written = [(12, 7)]\<rparr> \<and>
   (16 :: int) \<noteq> - EFAULT"
  using since_fault_run by (simp add: faulting_at_def EFAULT_def)

text \<open>C8. A reverse-attribute call whose argument struct can be read is rejected with
  \<^verbatim>\<open>-EINVAL\<close>, before any lookup in the store and with nothing written, when the first
  inode is above the last, when the string is longer than the maximum, or when the count
  exceeds \<^verbatim>\<open>INT_MAX\<close>. A count of zero is not an error: with the other fields valid the
  call returns 0 at once, again with no lookup and nothing written.\<close>

theorem find_xattr_validation:
  "(\<not> args_fault u \<and>
    (fx_first_ino args > fx_last_ino args \<or> fx_str_len args > SCOUTFS_MAX_XATTR_LEN fmt \<or>
     fx_ino_count args > INT_MAX) \<longrightarrow>
      scoutfs_ioc_find_xattr fmt u meta args find_name =
        \<lparr>ret = - EINVAL, written = [], lookups = 0\<rparr>) \<and>
   (\<not> args_fault u \<and> fx_first_ino args \<le> fx_last_ino args \<and>
    fx_str_len args \<le> SCOUTFS_MAX_XATTR_LEN fmt \<and> fx_ino_count args = 0 \<longrightarrow>
      scoutfs_ioc_find_xattr fmt u meta args find_name =
        \<lparr>ret = 0, written = [], lookups = 0\<rparr>)"
  by (auto simp: scoutfs_ioc_find_xattr_def)

theorem find_xattr_validation_witness:
  "scoutfs_ioc_find_xattr scenario_format quiet xattr_meta (xattr_args 21 0 5) False =
     \<lparr>ret = - EINVAL, written = [], lookups = 0\<rparr> \<and>
   scoutfs_ioc_find_xattr scenario_format quiet xattr_meta (xattr_args 10 256 5) False =
     \<lparr>ret = - EINVAL, written = [], lookups = 0\<rparr> \<and>
   scoutfs_ioc_find_xattr scenario_format quiet xattr_meta (xattr_args 10 0 2147483648) False =
     \<lparr>ret = - EINVAL, written = [], lookups = 0\<rparr> \<and>
   scoutfs_ioc_find_xattr scenario_format quiet xattr_meta (xattr_args 10 0 0) False =
     \<lparr>ret = 0, written = [], lookups = 0\<rparr>"
  using find_xattr_validation [where u = quiet and args = "xattr_args 21 0 5" and fmt = scenario_format
      and meta = xattr_meta and find_name = False]
    find_xattr_validation [where u = quiet and args = "xattr_args 10 256 5" and fmt = scenario_format
      and meta = xattr_meta and find_name = False]
    find_xattr_validation [where u = quiet and args = "xattr_args 10 0 2147483648" and fmt = scenario_format
      and meta = xattr_meta and find_name = False]
    find_xattr_validation [where u = quiet and args = "xattr_args 10 0 0" and fmt = scenario_format
      and meta = xattr_meta and find_name = False]
  by (simp add: quiet_def xattr_args_def scenario_format_def INT_MAX_def)

section \<open>Properties of the path reconstruction\<close>

lemma copy_ok:
  assumes "0 \<le> space" "space \<le> int INT_MAX" "\<not> write_fault u (length to) n" "int n \<le> space"
  shows "copy_to_ptr u to from n space = (space - int n, to @ take n from)"
proof -
  have a: "ulong_of_int space = space" using assms by (simp add: ulong_of_int_def INT_MAX_def)
  have "0 \<le> space - int n" "space - int n < 2 ^ 31" using assms by (simp_all add: INT_MAX_def)
  then have b: "int_of_ulong (space - int n) = space - int n"
    by (simp add: int_of_ulong_def)
  show ?thesis using assms a b by (simp add: copy_to_ptr_def)
qed

lemma copy_ovf:
  assumes "0 \<le> space" "space \<le> int INT_MAX" "space < int n"
  shows "copy_to_ptr u to from n space = (- EOVERFLOW, to)"
proof -
  have a: "ulong_of_int space = space" using assms by (simp add: ulong_of_int_def INT_MAX_def)
  show ?thesis using assms a by (simp add: copy_to_ptr_def)
qed

lemma cc_held:
  "copy_components u cs blen ptr held = (b, p, l, h) \<Longrightarrow>
     h - int (length l) = held - int (length cs) \<and> (b < 0 \<or> l = [])"
proof (induction cs arbitrary: blen ptr held)
  case Nil
  then show ?case by simp
next
  case (Cons c rest)
  obtain b1 p1 where A: "copy_to_ptr u ptr (name c) (len c) blen = (b1, p1)" by (metis surj_pair)
  obtain b2 p2 where B: "copy_to_ptr u p1 slash 1 b1 = (b2, p2)" by (metis surj_pair)
  from Cons.prems A B Cons.IH show ?case
    by (auto split: if_splits)
qed

lemma len_comp_name: "len c \<le> length (name c) \<Longrightarrow> length (comp_name c) = len c"
  by (simp add: comp_name_def)

lemma cc_ok:
  assumes "no_fault u"
  shows "list_all (\<lambda>c. len c \<le> length (name c)) cs \<Longrightarrow> 0 \<le> blen \<Longrightarrow> blen \<le> int INT_MAX \<Longrightarrow>
     int (length (path_string cs)) \<le> blen \<Longrightarrow>
     copy_components u cs blen ptr held =
       (blen - int (length (path_string cs)), ptr @ path_string cs, [], held - int (length cs))"
proof (induction cs arbitrary: blen ptr held rule: path_string.induct)
  case 1
  then show ?case by simp
next
  case (2 c)
  have nf: "\<not> write_fault u (length ptr) (len c)" using assms by (simp add: no_fault_def)
  from 2 have le: "int (len c) \<le> blen" by (simp add: len_comp_name)
  from copy_ok [OF "2.prems"(2,3) nf le, of "name c"] 2 show ?case
    by (simp add: comp_name_def)
next
  case (3 c c' cs)
  have nf: "\<not> write_fault u (length ptr) (len c)" using assms by (simp add: no_fault_def)
  from 3 have L: "int (len c) + 1 + int (length (path_string (c' # cs))) \<le> blen"
    by (simp add: len_comp_name slash_def)
  then have le: "int (len c) \<le> blen" by simp
  note A = copy_ok [OF "3.prems"(2,3) nf le, of "name c"]
  let ?b1 = "blen - int (len c)" and ?p1 = "ptr @ take (len c) (name c)"
  have b1: "0 \<le> ?b1" "?b1 \<le> int INT_MAX" "int 1 \<le> ?b1" using L "3.prems" by simp_all
  have nf1: "\<not> write_fault u (length ?p1) 1" using assms by (simp add: no_fault_def)
  note B = copy_ok [OF b1(1,2) nf1 b1(3), of slash]
  let ?b2 = "?b1 - int 1" and ?p2 = "?p1 @ take 1 slash"
  have b2: "0 \<le> ?b2" "?b2 \<le> int INT_MAX" "int (length (path_string (c' # cs))) \<le> ?b2"
    using L "3.prems" by simp_all
  have wf: "list_all (\<lambda>c. len c \<le> length (name c)) (c' # cs)" using "3.prems" by simp
  note IH = "3.IH" [OF wf b2, of ?p2 "held - 1"]
  have fit: "len c \<le> length (name c)" using "3.prems" by simp
  show ?case
    apply (subst copy_components.simps(2))
    using A B IH b1 b2 fit
    by (simp add: comp_name_def slash_def del: copy_components.simps)
qed

lemma cc_ovf:
  assumes "no_fault u"
  shows "list_all (\<lambda>c. len c \<le> length (name c)) cs \<Longrightarrow> 0 \<le> blen \<Longrightarrow> blen \<le> int INT_MAX \<Longrightarrow>
     blen < int (length (path_string cs)) \<Longrightarrow>
     fst (copy_components u cs blen ptr held) = - EOVERFLOW"
proof (induction cs arbitrary: blen ptr held rule: path_string.induct)
  case 1
  then show ?case by simp
next
  case (2 c)
  from 2 have lt: "blen < int (len c)" by (simp add: len_comp_name)
  from copy_ovf [OF "2.prems"(2,3) lt, of u ptr "name c"] show ?case
    by (simp add: EOVERFLOW_def)
next
  case (3 c c' cs)
  from 3 have L: "blen < int (len c) + 1 + int (length (path_string (c' # cs)))"
    by (simp add: len_comp_name slash_def)
  show ?case
  proof (cases "blen < int (len c)")
    case True
    from copy_ovf [OF "3.prems"(2,3) True, of u ptr "name c"] show ?thesis
      by (simp add: EOVERFLOW_def)
  next
    case False
    then have le: "int (len c) \<le> blen" by simp
    have nf: "\<not> write_fault u (length ptr) (len c)" using assms by (simp add: no_fault_def)
    note A = copy_ok [OF "3.prems"(2,3) nf le, of "name c"]
    let ?b1 = "blen - int (len c)" and ?p1 = "ptr @ take (len c) (name c)"
    have b1: "0 \<le> ?b1" "?b1 \<le> int INT_MAX" using le "3.prems" by simp_all
    show ?thesis
    proof (cases "?b1 < int 1")
      case True
      from copy_ovf [OF b1 True, of u ?p1 slash] A b1 show ?thesis
        by (simp add: EOVERFLOW_def)
    next
      case False
      then have one: "int 1 \<le> ?b1" by simp
      have nf1: "\<not> write_fault u (length ?p1) 1" using assms by (simp add: no_fault_def)
      note B = copy_ok [OF b1 nf1 one, of slash]
      let ?b2 = "?b1 - int 1" and ?p2 = "?p1 @ take 1 slash"
      have b2: "0 \<le> ?b2" "?b2 \<le> int INT_MAX" "?b2 < int (length (path_string (c' # cs)))"
        using L one "3.prems" by simp_all
      have wf: "list_all (\<lambda>c. len c \<le> length (name c)) (c' # cs)" using "3.prems" by simp
      note IH = "3.IH" [OF wf b2, of ?p2 "held - 1"]
      show ?thesis
        apply (subst copy_components.simps(2))
        using A B IH b1 b2 by (simp del: copy_components.simps)
    qed
  qed
qed

lemma pl_exhausted:
  "length (d ino) \<le> ctr \<Longrightarrow>
   inode_paths_loop u d ino ctr blen ptr held =
     (case copy_to_ptr u ptr null 1 blen of (b, p) \<Rightarrow> (0, b, p, [], held))"
  by (subst inode_paths_loop.simps) (simp add: scoutfs_dir_next_path_def)

lemma pl_step:
  assumes "ctr < length (d ino)"
    and "copy_components u (d ino ! ctr) blen ptr (held + int (length (d ino ! ctr))) =
           (blen1, ptr1, lst1, held1)"
  shows "inode_paths_loop u d ino ctr blen ptr held =
     (if blen1 < 0 then (0, blen1, ptr1, lst1, held1)
      else (case copy_to_ptr u ptr1 null 1 blen1 of
              (blen2, ptr2) \<Rightarrow>
                if blen2 < 0 then (0, blen2, ptr2, lst1, held1)
                else inode_paths_loop u d ino (Suc ctr) blen2 ptr2 held1))"
  using assms by (subst inode_paths_loop.simps) (simp add: scoutfs_dir_next_path_def)

lemma pl_held:
  "inode_paths_loop u d ino ctr blen ptr held = (r, b, p, l, h) \<Longrightarrow> h - int (length l) = held"
proof (induction "length (d ino) - ctr" arbitrary: ctr blen ptr held)
  case 0
  then have "length (d ino) \<le> ctr" by simp
  from pl_exhausted [where d = d and ino = ino, OF this, of u blen ptr held] "0.prems" show ?case
    by (auto split: prod.splits)
next
  case (Suc k)
  then have lt: "ctr < length (d ino)" by simp
  obtain blen1 ptr1 lst1 held1 where
    C: "copy_components u (d ino ! ctr) blen ptr (held + int (length (d ino ! ctr))) =
           (blen1, ptr1, lst1, held1)" by (metis prod_cases4)
  from cc_held [OF C] have H: "held1 - int (length lst1) = held" "blen1 < 0 \<or> lst1 = []"
    by simp_all
  note U = pl_step [where d = d and ino = ino, OF lt C]
  show ?case
  proof (cases "blen1 < 0")
    case True
    with U Suc.prems H show ?thesis by simp
  next
    case False
    obtain blen2 ptr2 where T: "copy_to_ptr u ptr1 null 1 blen1 = (blen2, ptr2)"
      by (metis surj_pair)
    show ?thesis
    proof (cases "blen2 < 0")
      case True
      with U Suc.prems H False T show ?thesis by simp
    next
      case nn: False
      from U Suc.prems False T nn
      have R: "inode_paths_loop u d ino (Suc ctr) blen2 ptr2 held1 = (r, b, p, l, h)" by simp
      have "k = length (d ino) - Suc ctr" using Suc.hyps(2) by simp
      from Suc.hyps(1) [OF this R] H False show ?thesis by simp
    qed
  qed
qed

lemma paths_output_Cons:
  "paths_output (q # qs) = path_string q @ null @ paths_output qs"
  by (simp add: paths_output_def)

lemma pl_ok:
  assumes "no_fault u" "names_fit (d ino)"
  shows "0 \<le> blen \<Longrightarrow> blen \<le> int INT_MAX \<Longrightarrow>
     int (length (paths_output (drop ctr (d ino)))) \<le> blen \<Longrightarrow>
     inode_paths_loop u d ino ctr blen ptr held =
       (0, blen - int (length (paths_output (drop ctr (d ino)))),
        ptr @ paths_output (drop ctr (d ino)), [], held)"
proof (induction "length (d ino) - ctr" arbitrary: ctr blen ptr held)
  case 0
  then have ge: "length (d ino) \<le> ctr" by simp
  then have D: "paths_output (drop ctr (d ino)) = null" by (simp add: paths_output_def)
  have nf: "\<not> write_fault u (length ptr) 1" using assms by (simp add: no_fault_def)
  have "int 1 \<le> blen" using "0.prems" D by (simp add: null_def)
  from copy_ok [OF "0.prems"(1,2) nf this, of null] pl_exhausted [where d = d and ino = ino, OF ge, of u blen ptr held] D
  show ?case by (simp add: null_def)
next
  case (Suc k)
  then have lt: "ctr < length (d ino)" by simp
  let ?q = "d ino ! ctr"
  have D: "paths_output (drop ctr (d ino)) =
      path_string ?q @ null @ paths_output (drop (Suc ctr) (d ino))"
    using lt by (simp add: Cons_nth_drop_Suc [symmetric] paths_output_Cons)
  let ?n = "int (length (path_string ?q))"
  let ?m = "int (length (paths_output (drop (Suc ctr) (d ino))))"
  have L: "?n + 1 + ?m \<le> blen" using Suc.prems D by (simp add: null_def)
  have wf: "list_all (\<lambda>c. len c \<le> length (name c)) ?q"
    using assms(2) lt by (simp add: names_fit_def list_all_length)
  have le: "?n \<le> blen" using L by simp
  note C = cc_ok [OF assms(1) wf Suc.prems(1,2) le, of ptr "held + int (length ?q)"]
  let ?b1 = "blen - ?n" and ?p1 = "ptr @ path_string ?q"
  have b1: "0 \<le> ?b1" "?b1 \<le> int INT_MAX" "int 1 \<le> ?b1" using L Suc.prems by simp_all
  have nf: "\<not> write_fault u (length ?p1) 1" using assms by (simp add: no_fault_def)
  note T = copy_ok [OF b1(1,2) nf b1(3), of null]
  let ?b2 = "?b1 - int 1" and ?p2 = "?p1 @ take 1 null"
  have b2: "0 \<le> ?b2" "?b2 \<le> int INT_MAX" "?m \<le> ?b2" using L Suc.prems by simp_all
  have "k = length (d ino) - Suc ctr" using Suc.hyps(2) by simp
  note IH = Suc.hyps(1) [OF this b2, of ?p2 held]
  show ?case
    using pl_step [where d = d and ino = ino, OF lt C] T IH b1 b2 D by (simp add: null_def)
qed

lemma pl_ovf:
  assumes "no_fault u" "names_fit (d ino)"
  shows "0 \<le> blen \<Longrightarrow> blen \<le> int INT_MAX \<Longrightarrow>
     blen < int (length (paths_output (drop ctr (d ino)))) \<Longrightarrow>
     \<exists>p l h. inode_paths_loop u d ino ctr blen ptr held = (0, - EOVERFLOW, p, l, h)"
proof (induction "length (d ino) - ctr" arbitrary: ctr blen ptr held)
  case 0
  then have ge: "length (d ino) \<le> ctr" by simp
  then have D: "paths_output (drop ctr (d ino)) = null" by (simp add: paths_output_def)
  have "blen < int 1" using "0.prems" D by (simp add: null_def)
  from copy_ovf [OF "0.prems"(1,2) this, of u ptr null] pl_exhausted [where d = d and ino = ino, OF ge, of u blen ptr held]
  show ?case by simp
next
  case (Suc k)
  then have lt: "ctr < length (d ino)" by simp
  let ?q = "d ino ! ctr"
  have D: "paths_output (drop ctr (d ino)) =
      path_string ?q @ null @ paths_output (drop (Suc ctr) (d ino))"
    using lt by (simp add: Cons_nth_drop_Suc [symmetric] paths_output_Cons)
  let ?n = "int (length (path_string ?q))"
  let ?m = "int (length (paths_output (drop (Suc ctr) (d ino))))"
  have L: "blen < ?n + 1 + ?m" using Suc.prems D by (simp add: null_def)
  have wf: "list_all (\<lambda>c. len c \<le> length (name c)) ?q"
    using assms(2) lt by (simp add: names_fit_def list_all_length)
  obtain blen1 ptr1 lst1 held1 where
    C: "copy_components u ?q blen ptr (held + int (length ?q)) = (blen1, ptr1, lst1, held1)"
    by (metis prod_cases4)
  note U = pl_step [where d = d and ino = ino, OF lt C]
  show ?case
  proof (cases "blen < ?n")
    case True
    from cc_ovf [OF assms(1) wf Suc.prems(1,2) True, of ptr "held + int (length ?q)"] C
    have "blen1 = - EOVERFLOW" by simp
    with U show ?thesis by (simp add: EOVERFLOW_def)
  next
    case False
    then have le: "?n \<le> blen" by simp
    from cc_ok [OF assms(1) wf Suc.prems(1,2) le, of ptr "held + int (length ?q)"] C
    have C': "blen1 = blen - ?n" "ptr1 = ptr @ path_string ?q" by simp_all
    have b1: "0 \<le> blen1" "blen1 \<le> int INT_MAX" using C' le Suc.prems by simp_all
    show ?thesis
    proof (cases "blen1 < int 1")
      case True
      from copy_ovf [OF b1 True, of u ptr1 null] U b1 show ?thesis
        by (simp add: EOVERFLOW_def)
    next
      case False
      then have one: "int 1 \<le> blen1" by simp
      have nf: "\<not> write_fault u (length ptr1) 1" using assms by (simp add: no_fault_def)
      note T = copy_ok [OF b1 nf one, of null]
      let ?b2 = "blen1 - int 1"
      have b2: "0 \<le> ?b2" "?b2 \<le> int INT_MAX" "?b2 < ?m" using L one C' Suc.prems by simp_all
      have "k = length (d ino) - Suc ctr" using Suc.hyps(2) by simp
      from Suc.hyps(1) [OF this b2, of "ptr1 @ take 1 null" held1]
      show ?thesis using U T b1 b2 by simp
    qed
  qed
qed

lemma paths_valid:
  assumes "capable u" "\<not> args_fault u" "ip_buf_len args \<le> INT_MAX"
    and "inode_paths_loop u d (ip_ino args) 0 (int (ip_buf_len args)) [] 0 = (r, b, p, l, h)"
  shows "scoutfs_ioc_inode_paths u d args =
     \<lparr>ret = (if r = 0 \<and> b < 0 then b else r), written = p, held_after = 0\<rparr>"
  using assms pl_held [OF assms(4)]
  by (simp add: scoutfs_ioc_inode_paths_def scoutfs_dir_free_path_def)

lemma paths_released: "held_after (scoutfs_ioc_inode_paths u d args) = 0"
proof -
  obtain r b p l h where
    L: "inode_paths_loop u d (ip_ino args) 0 (int (ip_buf_len args)) [] 0 = (r, b, p, l, h)"
    by (metis prod_cases5)
  from pl_held [OF L] show ?thesis
    by (simp add: scoutfs_ioc_inode_paths_def scoutfs_dir_free_path_def L)
qed

lemma two_links_output:
  "paths_output (two_links 7) = [97, 47, 98, 47, 99, 0, 97, 47, 100, 47, 99, 0, 0]"
  by (simp add: paths_output_def two_links_def one_byte_def comp_name_def slash_def null_def)

lemma two_links_fit: "names_fit (two_links i)"
  by (simp add: names_fit_def two_links_def one_byte_def)

lemma quiet_ok: "capable quiet" "\<not> args_fault quiet" "no_fault quiet"
  by (simp_all add: quiet_def no_fault_def)

text \<open>C4. A caller with the capability asks for the paths to an inode, with a buffer that
  holds all of the output and copies that do not fault. The call returns 0 and the buffer
  holds exactly the output the spec describes: for each of the k paths its names joined by
  single separators, with none after the last name, and one terminator, then one more
  terminator after the last path. For an inode with no path the output is that single
  terminator.\<close>

theorem path_completeness:
  assumes "capable u" "\<not> args_fault u" "no_fault u" "names_fit (d (ip_ino args))"
    and "length (paths_output (d (ip_ino args))) \<le> ip_buf_len args"
    and "ip_buf_len args \<le> INT_MAX"
  shows "scoutfs_ioc_inode_paths u d args =
           \<lparr>ret = 0, written = paths_output (d (ip_ino args)), held_after = 0\<rparr> \<and>
         (d (ip_ino args) = [] \<longrightarrow> written (scoutfs_ioc_inode_paths u d args) = [0])"
proof -
  have b: "0 \<le> int (ip_buf_len args)" "int (ip_buf_len args) \<le> int INT_MAX"
    "int (length (paths_output (drop 0 (d (ip_ino args))))) \<le> int (ip_buf_len args)"
    using assms by simp_all
  note L = pl_ok [where d = d and ino = "ip_ino args", OF assms(3,4) b, of "[]" 0]
  have R: "scoutfs_ioc_inode_paths u d args =
           \<lparr>ret = 0, written = paths_output (d (ip_ino args)), held_after = 0\<rparr>"
    using paths_valid [OF assms(1,2,6) L] assms(5) by simp
  then show ?thesis by (auto simp: paths_output_def null_def)
qed

theorem path_completeness_witness:
  "scoutfs_ioc_inode_paths quiet two_links (paths_args 7 64) =
     \<lparr>ret = 0, written = [97, 47, 98, 47, 99, 0, 97, 47, 100, 47, 99, 0, 0], held_after = 0\<rparr> \<and>
   scoutfs_ioc_inode_paths quiet two_links (paths_args 8 64) =
     \<lparr>ret = 0, written = [0], held_after = 0\<rparr>"
proof -
  have i7: "ip_ino (paths_args 7 64) = 7" "ip_buf_len (paths_args 7 64) = 64"
    and i8: "ip_ino (paths_args 8 64) = 8" "ip_buf_len (paths_args 8 64) = 64"
    by (simp_all add: paths_args_def)
  have o8: "paths_output (two_links 8) = [0]"
    by (simp add: two_links_def paths_output_def null_def)
  have "length (paths_output (two_links (ip_ino (paths_args 7 64)))) \<le> ip_buf_len (paths_args 7 64)"
    "ip_buf_len (paths_args 7 64) \<le> INT_MAX"
    by (simp_all add: i7 two_links_output INT_MAX_def)
  from path_completeness [where u = quiet and d = two_links and args = "paths_args 7 64",
      OF quiet_ok two_links_fit this]
  have a: "scoutfs_ioc_inode_paths quiet two_links (paths_args 7 64) =
     \<lparr>ret = 0, written = [97, 47, 98, 47, 99, 0, 97, 47, 100, 47, 99, 0, 0], held_after = 0\<rparr>"
    by (simp add: i7 two_links_output)
  have "length (paths_output (two_links (ip_ino (paths_args 8 64)))) \<le> ip_buf_len (paths_args 8 64)"
    "ip_buf_len (paths_args 8 64) \<le> INT_MAX"
    by (simp_all add: i8 o8 INT_MAX_def)
  from path_completeness [where u = quiet and d = two_links and args = "paths_args 8 64",
      OF quiet_ok two_links_fit this]
  have b: "scoutfs_ioc_inode_paths quiet two_links (paths_args 8 64) =
     \<lparr>ret = 0, written = [0], held_after = 0\<rparr>"
    by (simp add: i8 o8)
  from a b show ?thesis by simp
qed

text \<open>C7. When the buffer is too short for the output, wherever in a path or at whichever
  terminator the space runs out, the call returns \<^verbatim>\<open>-EOVERFLOW\<close>, not a success with part
  of the paths, and every component it allocated has been freed when it returns.\<close>

theorem buffer_too_small:
  assumes "capable u" "\<not> args_fault u" "no_fault u" "names_fit (d (ip_ino args))"
    and "ip_buf_len args < length (paths_output (d (ip_ino args)))"
    and "ip_buf_len args \<le> INT_MAX"
  shows "ret (scoutfs_ioc_inode_paths u d args) = - EOVERFLOW \<and>
         held_after (scoutfs_ioc_inode_paths u d args) = 0"
proof -
  have b: "0 \<le> int (ip_buf_len args)" "int (ip_buf_len args) \<le> int INT_MAX"
    "int (ip_buf_len args) < int (length (paths_output (drop 0 (d (ip_ino args)))))"
    using assms by simp_all
  from pl_ovf [where d = d and ino = "ip_ino args", OF assms(3,4) b, of "[]" 0]
  obtain p l h where
    L: "inode_paths_loop u d (ip_ino args) 0 (int (ip_buf_len args)) [] 0 =
          (0, - EOVERFLOW, p, l, h)" by blast
  from paths_valid [OF assms(1,2,6) L] show ?thesis by (simp add: EOVERFLOW_def)
qed

theorem buffer_too_small_witness:
  "ret (scoutfs_ioc_inode_paths quiet two_links (paths_args 7 12)) = - EOVERFLOW \<and>
   ret (scoutfs_ioc_inode_paths quiet two_links (paths_args 7 3)) = - EOVERFLOW \<and>
   held_after (scoutfs_ioc_inode_paths quiet two_links (paths_args 7 3)) = 0"
proof -
  have i12: "ip_ino (paths_args 7 12) = 7" "ip_buf_len (paths_args 7 12) = 12"
    and i3: "ip_ino (paths_args 7 3) = 7" "ip_buf_len (paths_args 7 3) = 3"
    by (simp_all add: paths_args_def)
  have "ip_buf_len (paths_args 7 12) < length (paths_output (two_links (ip_ino (paths_args 7 12))))"
    "ip_buf_len (paths_args 7 12) \<le> INT_MAX"
    by (simp_all add: i12 two_links_output INT_MAX_def)
  note a = buffer_too_small [where u = quiet and d = two_links and args = "paths_args 7 12",
      OF quiet_ok two_links_fit this]
  have "ip_buf_len (paths_args 7 3) < length (paths_output (two_links (ip_ino (paths_args 7 3))))"
    "ip_buf_len (paths_args 7 3) \<le> INT_MAX"
    by (simp_all add: i3 two_links_output INT_MAX_def)
  note b = buffer_too_small [where u = quiet and d = two_links and args = "paths_args 7 3",
      OF quiet_ok two_links_fit this]
  from a b show ?thesis by simp
qed

section \<open>The cursor after a match\<close>

text \<open>The cursor the loop goes on with after a match: the inode after the found one,
  with the type and the offset of the found key.\<close>

lemma cursor_after_match:
  "found\<lparr>inode := scoutfs_key_inode found + 1\<rparr> =
     scoutfs_set_key (inode found + 1) (type found) (offset found)"
  by (simp add: scoutfs_set_key_def scoutfs_key_inode_def)

text \<open>C3, evaluated on the store of two extent items. The first lookup finds the item of
  inode 12 at offset 5, and the loop goes on with the cursor (13, ty, 5): only the inode
  of the found key is replaced, its offset stays. The cursor is not (13, ty, 0), the item
  of inode 13 at offset 2 lies below it, and the call ends with inode 12 alone, though
  inode 13 has an item of the type at sequence 9, above the floor 5.\<close>

theorem cursor_keeps_offset:
  "inodes_since_loop quiet (extent_meta ty) (scoutfs_set_key 20 ty 0) 5 4096
     (scoutfs_set_key 10 ty 0) 0 [] =
   inodes_since_loop quiet (extent_meta ty) (scoutfs_set_key 20 ty 0) 5 4096
     (scoutfs_set_key 13 ty 5) 16 [(12, 7)] \<and>
   scoutfs_set_key 13 ty 5 \<noteq> scoutfs_set_key 13 ty 0 \<and>
   (scoutfs_set_key 13 ty 2, 9) \<in> set (extent_meta ty) \<and>
   scoutfs_ioc_inodes_since quiet (extent_meta ty) (scenario_args 4096) ty =
     \<lparr>ret = 16, written = [(12, 7)]\<rparr>"
proof (intro conjI)
  show "inodes_since_loop quiet (extent_meta ty) (scoutfs_set_key 20 ty 0) 5 4096
     (scoutfs_set_key 10 ty 0) 0 [] =
   inodes_since_loop quiet (extent_meta ty) (scoutfs_set_key 20 ty 0) 5 4096
     (scoutfs_set_key 13 ty 5) 16 [(12, 7)]"
    by (subst inodes_since_loop.simps) (simp add: since_eval)
  show "scoutfs_set_key 13 ty 5 \<noteq> scoutfs_set_key 13 ty 0"
    by (simp add: scoutfs_set_key_def)
  show "(scoutfs_set_key 13 ty 2, 9) \<in> set (extent_meta ty)"
    by (simp add: extent_meta_def)
  show "scoutfs_ioc_inodes_since quiet (extent_meta ty) (scenario_args 4096) ty =
     \<lparr>ret = 16, written = [(12, 7)]\<rparr>"
    apply (simp add: since_eval)
    apply (subst inodes_since_loop.simps, simp add: since_eval)
    apply (subst inodes_since_loop.simps, simp add: since_eval)
    done
qed

text \<open>C9, evaluated on the same store. A first call with room for one record returns
  inode 12; a second call from inode 13 returns inode 13; the single call with a large
  buffer returns inode 12 alone. The two calls together and the single call differ.\<close>

theorem split_differs_from_unsplit:
  "written (scoutfs_ioc_inodes_since quiet (extent_meta ty) (resumed_args 10 16) ty) = [(12, 7)] \<and>
   written (scoutfs_ioc_inodes_since quiet (extent_meta ty) (resumed_args (12 + 1) 4096) ty) =
     [(13, 9)] \<and>
   written (scoutfs_ioc_inodes_since quiet (extent_meta ty) (resumed_args 10 4096) ty) = [(12, 7)] \<and>
   written (scoutfs_ioc_inodes_since quiet (extent_meta ty) (resumed_args 10 16) ty) @
   written (scoutfs_ioc_inodes_since quiet (extent_meta ty) (resumed_args (12 + 1) 4096) ty) \<noteq>
   written (scoutfs_ioc_inodes_since quiet (extent_meta ty) (resumed_args 10 4096) ty)"
proof -
  have a: "written (scoutfs_ioc_inodes_since quiet (extent_meta ty) (resumed_args 10 16) ty) =
      [(12, 7)]"
    apply (simp add: since_eval)
    apply (subst inodes_since_loop.simps, simp add: since_eval)
    done
  have b: "written (scoutfs_ioc_inodes_since quiet (extent_meta ty) (resumed_args (12 + 1) 4096)
      ty) = [(13, 9)]"
    apply (simp add: since_eval)
    apply (subst inodes_since_loop.simps, simp add: since_eval)
    apply (subst inodes_since_loop.simps, simp add: since_eval)
    done
  have c: "written (scoutfs_ioc_inodes_since quiet (extent_meta ty) (resumed_args 10 4096) ty) =
      [(12, 7)]"
    apply (simp add: since_eval)
    apply (subst inodes_since_loop.simps, simp add: since_eval)
    apply (subst inodes_since_loop.simps, simp add: since_eval)
    done
  show ?thesis using a b c by simp
qed

end
